theory Spec2Isabelle
  imports Main "HOL-Library.Sublist"
begin

section \<open>Strings of the program\<close>

text \<open>
  A JavaScript string is a sequence of UTF-16 code units. The texts that flow through the
  moderation functions are sequences of the code units U+0000 .. U+00FF (a \<^typ>\<open>char\<close> is
  the code unit with the same number) and of the code units beyond that range whose
  lower-case mapping holds a letter a-z: U+0130 (LATIN CAPITAL LETTER I WITH DOT ABOVE, to
  \<^verbatim>\<open>i\<close> followed by U+0307) and U+212A (KELVIN SIGN, to \<^verbatim>\<open>k\<close>), with U+0307 (COMBINING DOT
  ABOVE), which the former produces. On these code units the built-ins used by the source
  are written out exactly below. Every other code unit lower-cases to code units from 128
  upwards and has a canonical form from 128 upwards, so it is never a letter of a denylist
  term for either matcher. The literal messages the program prints hold pictographs and
  box-drawing characters; console output and error messages are lists of code-unit numbers.
\<close>

datatype code_unit = U8 char | U_0130 | U_0307 | U_212A

type_synonym js_string = "code_unit list"

abbreviation lit :: "string \<Rightarrow> js_string" where
  "lit \<equiv> map U8"

type_synonym code_units = "nat list"

definition units :: "string \<Rightarrow> code_units" where
  "units s = map of_char s"

definition number :: "code_unit \<Rightarrow> nat" where
  "number u = (case u of U8 c \<Rightarrow> of_char c | U_0130 \<Rightarrow> 0x130 | U_0307 \<Rightarrow> 0x307 | U_212A \<Rightarrow> 0x212A)"

definition numbers :: "js_string \<Rightarrow> code_units" where
  "numbers s = map number s"

text \<open>
  \<^verbatim>\<open>String.prototype.toLowerCase\<close>. On a code unit of U+0000 .. U+00FF: the letters A-Z and
  the Latin-1 capitals U+00C0 .. U+00DE (the multiplication sign U+00D7 apart) move up by 32,
  everything else is unchanged. U+0130 becomes the two code units \<^verbatim>\<open>i\<close>, U+0307; U+212A
  becomes \<^verbatim>\<open>k\<close>; U+0307 is unchanged.
\<close>

definition toLowerCaseLatin1 :: "char \<Rightarrow> char" where
  "toLowerCaseLatin1 c =
     (let n = (of_char c :: nat)
      in if (65 \<le> n \<and> n \<le> 90) \<or> (192 \<le> n \<and> n \<le> 222 \<and> n \<noteq> 215)
         then char_of (n + 32) else c)"

definition toLowerCaseUnit :: "code_unit \<Rightarrow> js_string" where
  "toLowerCaseUnit u =
     (case u of
        U8 c \<Rightarrow> [U8 (toLowerCaseLatin1 c)]
      | U_0130 \<Rightarrow> [U8 CHR ''i'', U_0307]
      | U_0307 \<Rightarrow> [U_0307]
      | U_212A \<Rightarrow> [U8 CHR ''k''])"

definition toLowerCase :: "js_string \<Rightarrow> js_string" where
  "toLowerCase s = concat (map toLowerCaseUnit s)"

text \<open>\<^verbatim>\<open>s.includes(keyword)\<close>: the keyword starts at some position of \<open>s\<close>.\<close>

fun includes_str :: "js_string \<Rightarrow> js_string \<Rightarrow> bool" where
  "includes_str [] keyword = prefix keyword []"
| "includes_str (c # cs) keyword = (prefix keyword (c # cs) \<or> includes_str cs keyword)"

text \<open>
  \<^verbatim>\<open>String.prototype.trim\<close> removes the white space and line terminators of ECMAScript at
  both ends; among the code units of the model these are TAB, LF, VT, FF, CR, SPACE and NBSP.
\<close>

definition isWhiteSpace :: "code_unit \<Rightarrow> bool" where
  "isWhiteSpace u =
     (case u of U8 c \<Rightarrow> (of_char c :: nat) \<in> {9, 10, 11, 12, 13, 32, 160} | _ \<Rightarrow> False)"

definition trim :: "js_string \<Rightarrow> js_string" where
  "trim s = rev (dropWhile isWhiteSpace (rev (dropWhile isWhiteSpace s)))"

subsection \<open>The regular expressions \<^verbatim>\<open>new RegExp(keyword, 'gi')\<close>\<close>

text \<open>
  The keywords are plain letters, so the pattern is the literal sequence of its characters.
  With the flag \<^verbatim>\<open>i\<close> and without \<^verbatim>\<open>u\<close>, a pattern character matches an input character when
  both have the same canonical form (ECMAScript, Canonicalize): the upper-case mapping of the
  code unit, unless that mapping has several code units (U+00DF) or would take a code unit
  from 128 upwards below 128. U+0130, U+0307 and U+212A are their own upper-case mappings,
  so each is its own canonical form: without the flag \<^verbatim>\<open>u\<close> the KELVIN SIGN does not match
  the letter \<^verbatim>\<open>k\<close>.
\<close>

definition canonicalizeLatin1 :: "char \<Rightarrow> nat" where
  "canonicalizeLatin1 c =
     (let n = (of_char c :: nat)
      in if 97 \<le> n \<and> n \<le> 122 then n - 32
         else if 224 \<le> n \<and> n \<le> 254 \<and> n \<noteq> 247 then n - 32
         else if n = 255 then 376
         else if n = 181 then 924
         else n)"

definition canonicalize :: "code_unit \<Rightarrow> nat" where
  "canonicalize u =
     (case u of
        U8 c \<Rightarrow> canonicalizeLatin1 c
      | U_0130 \<Rightarrow> 0x130
      | U_0307 \<Rightarrow> 0x307
      | U_212A \<Rightarrow> 0x212A)"

fun matchesAt :: "js_string \<Rightarrow> js_string \<Rightarrow> bool" where
  "matchesAt [] s = True"
| "matchesAt (p # ps) [] = False"
| "matchesAt (p # ps) (c # cs) = (canonicalize p = canonicalize c \<and> matchesAt ps cs)"

text \<open>\<^verbatim>\<open>regex.test(s)\<close> on a fresh regular expression (\<^verbatim>\<open>lastIndex = 0\<close>).\<close>

fun regex_test :: "js_string \<Rightarrow> js_string \<Rightarrow> bool" where
  "regex_test keyword [] = matchesAt keyword []"
| "regex_test keyword (c # cs) = (matchesAt keyword (c # cs) \<or> regex_test keyword cs)"

text \<open>
  \<^verbatim>\<open>s.replace(regex, replacement)\<close> with a global regular expression: \<^verbatim>\<open>lastIndex\<close> is reset
  to 0, the matches are taken from left to right without overlap, and each is replaced (the
  replacement of the source holds no \<^verbatim>\<open>$\<close> pattern). An empty match is followed by a step of
  one code unit.
\<close>

fun replace_regex :: "js_string \<Rightarrow> js_string \<Rightarrow> js_string \<Rightarrow> js_string" where
  "replace_regex keyword replacement [] = (if keyword = [] then replacement else [])"
| "replace_regex keyword replacement (c # cs) =
     (if matchesAt keyword (c # cs)
      then (if keyword = [] then replacement @ c # replace_regex keyword replacement cs
            else replacement @ replace_regex keyword replacement (drop (length keyword - 1) cs))
      else c # replace_regex keyword replacement cs)"

section \<open>The denylist matcher\<close>

definition BANNED_KEYWORDS :: "js_string list" where
  "BANNED_KEYWORDS =
     [lit ''kill'', lit ''hack'', lit ''bomb'', lit ''exploit'', lit ''violence'', lit ''rape'']"

definition containsBannedContent :: "js_string \<Rightarrow> bool" where
  "containsBannedContent txt =
     (let lowerCaseText = toLowerCase txt
      in list_ex (\<lambda>keyword. includes_str lowerCaseText keyword) BANNED_KEYWORDS)"

record moderation_result =
  isSafe :: bool
  text' :: js_string

text \<open>
  One round of the \<^verbatim>\<open>forEach\<close> of \<^verbatim>\<open>moderateOutput\<close>; the state is the pair of the two
  variables the callback assigns, \<^verbatim>\<open>moderatedText\<close> and \<^verbatim>\<open>foundBannedContent\<close>.
\<close>

definition moderateStep :: "js_string \<times> bool \<Rightarrow> js_string \<Rightarrow> js_string \<times> bool" where
  "moderateStep st keyword =
     (case st of (moderatedText, foundBannedContent) \<Rightarrow>
        if regex_test keyword moderatedText
        then (replace_regex keyword (lit ''[REDACTED]'') moderatedText, True)
        else (moderatedText, foundBannedContent))"

definition moderateOutput :: "js_string \<Rightarrow> moderation_result" where
  "moderateOutput txt =
     (case foldl moderateStep (txt, False) BANNED_KEYWORDS of
        (moderatedText, foundBannedContent) \<Rightarrow>
          \<lparr>isSafe = \<not> foundBannedContent, text' = moderatedText\<rparr>)"

section \<open>The completion client\<close>

text \<open>
  A thrown value is an \<^verbatim>\<open>Error\<close> with its message, or the \<^verbatim>\<open>ReferenceError\<close> that the
  evaluation of an undeclared identifier raises.
\<close>

datatype js_error = Error code_units | ReferenceError string

fun message :: "js_error \<Rightarrow> code_units" where
  "message (Error m) = m"
| "message (ReferenceError name) = units (name @ '' is not defined'')"

datatype js_value = JSUndefined | JSString js_string

text \<open>
  What a run does to the outside, in order: lines on the console, the network request of
  \<^verbatim>\<open>fetch\<close> (with its URL), the \<^verbatim>\<open>readline\<close> interface, and the call of a function bound
  outside the file (with its argument).
\<close>

datatype effect =
    ConsoleLog "code_units list"
  | ConsoleError "code_units list"
  | Fetch code_units
  | CreateInterface
  | Question code_units
  | Call string js_string
  | Close

text \<open>The message of the error thrown at lines 68-74 of \<^verbatim>\<open>app.js\<close>.\<close>

definition KEY_NOT_FOUND :: code_units where
  "KEY_NOT_FOUND =
     0x274C # units '' OPENROUTER_API_KEY not found!'' @ [10] @
     units ''Please set it as an environment variable:'' @ [10] @
     units ''Windows CMD: set OPENROUTER_API_KEY=your-key-here'' @ [10] @
     units ''Windows PowerShell: $env:OPENROUTER_API_KEY='' @ [34] @ units ''your-key-here'' @ [34, 10] @
     units ''Then run the script again.''"

text \<open>
  \<^verbatim>\<open>callDeepseekAPI\<close> as the file delimits it, lines 66-75: the two closing braces of line 75
  end the conditional and the function, so the body is the check of the credential alone.
  \<^verbatim>\<open>process.env.OPENROUTER_API_KEY\<close> is a string or undefined (\<open>None\<close>); both undefined and
  the empty string are falsy. The result is the effects of the call and what the returned
  promise settles to: \<open>Inl\<close> the thrown error, \<open>Inr\<close> the returned value. The statements of
  lines 77-117 (request body, \<^verbatim>\<open>fetch\<close>, status check, extraction of the content) stand
  after the function, at the top level of the module, and are no part of any function.
\<close>

definition callDeepseekAPI :: "string option \<Rightarrow> js_string \<Rightarrow> effect list \<times> (js_error + js_value)" where
  "callDeepseekAPI OPENROUTER_API_KEY userInput =
     (if OPENROUTER_API_KEY = None \<or> OPENROUTER_API_KEY = Some []
      then ([], Inl (Error KEY_NOT_FOUND))
      else ([], Inr JSUndefined))"

section \<open>The orchestrator\<close>

text \<open>
  \<^verbatim>\<open>main\<close>, lines 119-170. The line read by \<^verbatim>\<open>rl.question\<close> is the argument \<open>userPrompt\<close>.
  The function calls \<^verbatim>\<open>callOpenRouter\<close>, an identifier that the file never declares: its
  binding is the first argument, \<open>None\<close> when nothing binds it (as in the file alone, where
  the call raises a \<^verbatim>\<open>ReferenceError\<close>), \<open>Some f\<close> when the environment binds it to a
  function that settles to an error or to a text. The \<^verbatim>\<open>catch\<close> block prints the message of
  whatever was thrown and the \<^verbatim>\<open>finally\<close> block closes the interface on every path.
\<close>

definition main :: "(js_string \<Rightarrow> js_error + js_string) option \<Rightarrow> js_string \<Rightarrow> effect list" where
  "main callOpenRouter userPrompt =
     [ConsoleLog [0x2554 # replicate 40 0x2550 @ [0x2557]],
      ConsoleLog [0x2551 # units ''   AI Chat with Moderation System      '' @ [0x2551]],
      ConsoleLog [0x255A # replicate 40 0x2550 @ [0x255D, 10]],
      CreateInterface,
      ConsoleLog [0xD83D # 0xDCAC # units '' Ask me anything (type your question below):'' @ [10]],
      Question (units ''You: '')] @
     (if trim userPrompt = []
      then [ConsoleLog [10 # 0x26A0 # 0xFE0F # units ''  You didn't enter anything. Please try again.'']]
      else
        [ConsoleLog [10 # 0xD83D # 0xDD0D # units '' Checking your input for safety...'']] @
        (if containsBannedContent userPrompt
         then [ConsoleLog [10 # 0x274C # units '' Your input violated the moderation policy.''],
               ConsoleLog [units ''Please rephrase your question without harmful content.'' @ [10]]]
         else
           [ConsoleLog [0x2705 # units '' Input is safe!'']] @
           (case callOpenRouter of
              None \<Rightarrow>
                [ConsoleError [10 # 0x274C # units '' An error occurred:'',
                               message (ReferenceError ''callOpenRouter'')]]
            | Some f \<Rightarrow>
                Call ''callOpenRouter'' userPrompt #
                (case f userPrompt of
                   Inl error \<Rightarrow>
                     [ConsoleError [10 # 0x274C # units '' An error occurred:'', message error]]
                 | Inr aiResponse \<Rightarrow>
                     (let moderationResult = moderateOutput aiResponse
                      in [ConsoleLog [0xD83D # 0xDD0D # units '' Checking AI response for safety...''],
                          (if \<not> isSafe moderationResult
                           then ConsoleLog [0x26A0 # 0xFE0F #
                                  units ''  Warning: Response contained inappropriate content (redacted below)'' @ [10]]
                           else ConsoleLog [0x2705 # units '' Response is safe!'' @ [10]]),
                          ConsoleLog [replicate 39 0x2550],
                          ConsoleLog [units ''AI Response:''],
                          ConsoleLog [replicate 39 0x2550],
                          ConsoleLog [numbers (text' moderationResult)],
                          ConsoleLog [replicate 39 0x2550 @ [10]]]))))) @
     [Close]"

section \<open>Notions of the specification\<close>

text \<open>
  The denylist terms are written in the letters a-z. Two texts are equal ignoring case when
  they agree after the letters A-Z are folded to a-z; a term occurs in a text when a
  contiguous part of the text is equal to it in that sense.
\<close>

definition lowerLetter :: "code_unit \<Rightarrow> bool" where
  "lowerLetter k =
     (case k of U8 c \<Rightarrow> 97 \<le> (of_char c :: nat) \<and> (of_char c :: nat) \<le> 122 | _ \<Rightarrow> False)"

definition ascii_fold_char :: "char \<Rightarrow> char" where
  "ascii_fold_char c =
     (let n = (of_char c :: nat) in if 65 \<le> n \<and> n \<le> 90 then char_of (n + 32) else c)"

definition ascii_fold :: "code_unit \<Rightarrow> code_unit" where
  "ascii_fold u = (case u of U8 c \<Rightarrow> U8 (ascii_fold_char c) | _ \<Rightarrow> u)"

definition occurs_ignoring_case :: "js_string \<Rightarrow> js_string \<Rightarrow> bool" where
  "occurs_ignoring_case keyword s = sublist (map ascii_fold keyword) (map ascii_fold s)"

text \<open>
  \<open>redaction s t\<close>: the text \<open>t\<close> comes from \<open>s\<close> by replacing, any number of times, one
  occurrence of a case variant of a denylist term by the marker, and by nothing else.
\<close>

inductive redaction :: "js_string \<Rightarrow> js_string \<Rightarrow> bool" where
  unchanged: "redaction s s"
| replaced: "redaction s (ps @ v @ ss) \<Longrightarrow> keyword \<in> set BANNED_KEYWORDS \<Longrightarrow>
             map ascii_fold v = keyword \<Longrightarrow> redaction s (ps @ lit ''[REDACTED]'' @ ss)"

code_pred redaction .

section \<open>Case folding of the two matchers\<close>

lemma of_char_lt: "(of_char c :: nat) < 256"
  by (cases c) simp

lemma char_eq_iff_nat: "(c = k) = ((of_char c :: nat) = of_char k)"
  by simp

lemma fold_char_eq:
  "97 \<le> (of_char k :: nat) \<Longrightarrow> (of_char k :: nat) \<le> 122 \<Longrightarrow>
   (ascii_fold_char c = k) = ((of_char c :: nat) = of_char k \<or> (of_char c :: nat) + 32 = of_char k)"
  using of_char_lt[of c] of_char_lt[of k]
  unfolding ascii_fold_char_def Let_def char_eq_iff_nat[of _ k]
  by (auto simp del: of_char_eq_iff)

lemma lower_char_eq:
  "97 \<le> (of_char k :: nat) \<Longrightarrow> (of_char k :: nat) \<le> 122 \<Longrightarrow>
   (toLowerCaseLatin1 c = k) = ((of_char c :: nat) = of_char k \<or> (of_char c :: nat) + 32 = of_char k)"
  using of_char_lt[of c] of_char_lt[of k]
  unfolding toLowerCaseLatin1_def Let_def char_eq_iff_nat[of _ k]
  by (auto simp del: of_char_eq_iff)

lemma canon_char_eq:
  "97 \<le> (of_char k :: nat) \<Longrightarrow> (of_char k :: nat) \<le> 122 \<Longrightarrow>
   (canonicalizeLatin1 k = canonicalizeLatin1 c) =
     ((of_char c :: nat) = of_char k \<or> (of_char c :: nat) + 32 = of_char k)"
  using of_char_lt[of c] of_char_lt[of k]
  unfolding canonicalizeLatin1_def Let_def
  by (auto simp del: of_char_eq_iff)

lemma canon_letter_range:
  "97 \<le> (of_char k :: nat) \<Longrightarrow> (of_char k :: nat) \<le> 122 \<Longrightarrow>
   65 \<le> canonicalizeLatin1 k \<and> canonicalizeLatin1 k \<le> 90"
  unfolding canonicalizeLatin1_def Let_def by auto

lemma canon_fold: "lowerLetter k \<Longrightarrow> (canonicalize k = canonicalize c) = (k = ascii_fold c)"
proof (cases k)
  case (U8 kc)
  assume "lowerLetter k"
  with U8 have r: "97 \<le> (of_char kc :: nat)" "(of_char kc :: nat) \<le> 122"
    by (simp_all add: lowerLetter_def)
  show ?thesis
  proof (cases c)
    case (U8 cc)
    with \<open>k = U8 kc\<close> canon_char_eq[OF r, of cc] fold_char_eq[OF r, of cc] show ?thesis
      by (auto simp: canonicalize_def ascii_fold_def)
  qed (use \<open>k = U8 kc\<close> canon_letter_range[OF r] in \<open>auto simp: canonicalize_def ascii_fold_def\<close>)
qed (simp_all add: lowerLetter_def)

lemma lower_of_fold: "lowerLetter k \<Longrightarrow> k = ascii_fold c \<Longrightarrow> toLowerCaseUnit c = [k]"
proof (cases k)
  case (U8 kc)
  assume "lowerLetter k" and kc: "k = ascii_fold c"
  with U8 have r: "97 \<le> (of_char kc :: nat)" "(of_char kc :: nat) \<le> 122"
    by (simp_all add: lowerLetter_def)
  show ?thesis
  proof (cases c)
    case (U8 cc)
    with \<open>k = U8 kc\<close> kc lower_char_eq[OF r, of cc] fold_char_eq[OF r, of cc] show ?thesis
      by (auto simp: toLowerCaseUnit_def ascii_fold_def)
  qed (use \<open>k = U8 kc\<close> kc in \<open>auto simp: ascii_fold_def\<close>)
qed (simp_all add: lowerLetter_def)

lemma fold_lowerLetter: "lowerLetter k \<Longrightarrow> ascii_fold k = k"
  by (cases k) (simp_all add: lowerLetter_def ascii_fold_def ascii_fold_char_def)

lemma map_fold_keyword: "list_all lowerLetter kw \<Longrightarrow> map ascii_fold kw = kw"
  by (induction kw) (simp_all add: fold_lowerLetter)

lemma matchesAt_fold:
  "list_all lowerLetter kw \<Longrightarrow> matchesAt kw s = prefix kw (map ascii_fold s)"
  by (induction kw s rule: matchesAt.induct) (simp_all add: canon_fold)

lemma regex_test_fold:
  "list_all lowerLetter kw \<Longrightarrow> regex_test kw s = sublist kw (map ascii_fold s)"
  by (induction s) (simp_all add: matchesAt_fold sublist_Cons_right)

lemma regex_test_occurs:
  "list_all lowerLetter kw \<Longrightarrow> regex_test kw s = occurs_ignoring_case kw s"
  by (simp add: regex_test_fold occurs_ignoring_case_def map_fold_keyword)

lemma includes_sublist: "includes_str s kw = sublist kw s"
  by (induction s) (simp_all add: sublist_Cons_right)

lemma lower_of_variant:
  "list_all lowerLetter kw \<Longrightarrow> map ascii_fold v = kw \<Longrightarrow> toLowerCase v = kw"
proof (induction v arbitrary: kw)
  case Nil
  then show ?case by (simp add: toLowerCase_def)
next
  case (Cons c v)
  from Cons.prems obtain k ks where kw: "kw = k # ks" and k: "k = ascii_fold c"
    and ks: "map ascii_fold v = ks" by auto
  from Cons.prems kw have l: "lowerLetter k" "list_all lowerLetter ks" by simp_all
  from Cons.IH[OF l(2) ks] have "toLowerCase v = ks" .
  moreover from lower_of_fold[OF l(1) k] have "toLowerCaseUnit c = [k]" .
  ultimately show ?case using kw by (simp add: toLowerCase_def)
qed

lemma toLowerCase_append: "toLowerCase (a @ b) = toLowerCase a @ toLowerCase b"
  by (simp add: toLowerCase_def)

text \<open>
  An occurrence that ignores case is found by the lower-casing matcher too. The converse
  fails: the lower-casing matcher also finds the KELVIN SIGN where a term has \<^verbatim>\<open>k\<close>.
\<close>

lemma occurs_includes:
  assumes "list_all lowerLetter kw" and "occurs_ignoring_case kw s"
  shows "includes_str (toLowerCase s) kw"
proof -
  from assms have "sublist kw (map ascii_fold s)"
    by (simp add: occurs_ignoring_case_def map_fold_keyword)
  then obtain ps ss where "map ascii_fold s = ps @ kw @ ss" by (auto simp: sublist_def)
  then obtain s1 r where s1: "s = s1 @ r" and r: "map ascii_fold r = kw @ ss"
    by (metis map_eq_append_conv)
  from r obtain s2 s3 where r23: "r = s2 @ s3" and v: "map ascii_fold s2 = kw"
    by (metis map_eq_append_conv)
  from s1 r23 have s: "s = s1 @ s2 @ s3" by simp
  from lower_of_variant[OF assms(1) v] have "toLowerCase s2 = kw" .
  with s have "toLowerCase s = toLowerCase s1 @ kw @ toLowerCase s3"
    by (simp add: toLowerCase_append)
  then show ?thesis by (simp add: includes_sublist)
qed

lemma banned_lowerLetter: "kw \<in> set BANNED_KEYWORDS \<Longrightarrow> list_all lowerLetter kw"
  by (auto simp: BANNED_KEYWORDS_def lowerLetter_def)

lemma banned_nonempty: "kw \<in> set BANNED_KEYWORDS \<Longrightarrow> kw \<noteq> []"
  by (auto simp: BANNED_KEYWORDS_def)

section \<open>Replacement creates no match\<close>

lemma not_bracket: "lowerLetter q \<Longrightarrow> canonicalize q \<noteq> canonicalize (U8 CHR ''['')"
  by (cases q) (auto simp: lowerLetter_def canonicalize_def canonicalizeLatin1_def)

lemma matchesAt_replace_gen:
  "repl = (lit ''[REDACTED]'') \<Longrightarrow> list_all lowerLetter p \<Longrightarrow>
   matchesAt p (replace_regex kw repl s) \<Longrightarrow> matchesAt p s"
proof (induction kw repl s arbitrary: p rule: replace_regex.induct)
  case (1 keyword replacement)
  then show ?case by (cases p) (auto simp: not_bracket split: if_splits)
next
  case (2 keyword replacement c cs)
  show ?case
  proof (cases p)
    case Nil
    then show ?thesis by simp
  next
    case (Cons q qs)
    show ?thesis
    proof (cases "matchesAt keyword (c # cs)")
      case True
      with "2.prems" Cons show ?thesis by (auto simp: not_bracket split: if_splits)
    next
      case False
      with "2.prems" Cons "2.IH"(3)[of qs] show ?thesis by simp
    qed
  qed
qed

lemma regex_test_marker:
  "kw \<in> set BANNED_KEYWORDS \<Longrightarrow> regex_test kw ((lit ''[REDACTED]'') @ r) = regex_test kw r"
  by (auto simp: BANNED_KEYWORDS_def canonicalize_def canonicalizeLatin1_def)

lemma regex_test_drop: "regex_test p (drop n s) \<Longrightarrow> regex_test p s"
proof (induction s arbitrary: n)
  case Nil
  then show ?case by simp
next
  case (Cons c s)
  then show ?case by (cases n) auto
qed

lemma regex_test_Cons_replace:
  assumes p: "list_all lowerLetter p" "p \<noteq> []"
    and m: "matchesAt p (c # replace_regex kw (lit ''[REDACTED]'') cs)"
  shows "matchesAt p (c # cs)"
proof -
  from p obtain q qs where pq: "p = q # qs" by (cases p) auto
  with m have "canonicalize q = canonicalize c" and "matchesAt qs (replace_regex kw (lit ''[REDACTED]'') cs)"
    by simp_all
  moreover from p pq have "list_all lowerLetter qs" by simp
  ultimately show ?thesis using pq matchesAt_replace_gen[of "lit ''[REDACTED]''" qs kw cs] by simp
qed

lemma regex_test_replace_gen:
  assumes "p \<in> set BANNED_KEYWORDS" and "kw \<noteq> []" and "repl = (lit ''[REDACTED]'')"
  shows "regex_test p (replace_regex kw repl s) \<Longrightarrow> regex_test p s"
  using assms(2,3)
proof (induction kw repl s rule: replace_regex.induct)
  case (1 keyword replacement)
  then show ?case by simp
next
  case (2 keyword replacement c cs)
  note pl = banned_lowerLetter[OF assms(1)] banned_nonempty[OF assms(1)]
  show ?case
  proof (cases "matchesAt keyword (c # cs)")
    case True
    with "2.prems" have "regex_test p ((lit ''[REDACTED]'') @ replace_regex keyword replacement (drop (length keyword - 1) cs))"
      by simp
    then have "regex_test p (replace_regex keyword replacement (drop (length keyword - 1) cs))"
      unfolding regex_test_marker[OF assms(1)] .
    with "2.IH"(2) True "2.prems" have "regex_test p (drop (length keyword - 1) cs)" by simp
    then have "regex_test p cs" by (rule regex_test_drop)
    then show ?thesis by simp
  next
    case False
    with "2.prems" have t: "regex_test p (c # replace_regex keyword (lit ''[REDACTED]'') cs)" by simp
    then consider "matchesAt p (c # replace_regex keyword (lit ''[REDACTED]'') cs)"
      | "regex_test p (replace_regex keyword (lit ''[REDACTED]'') cs)" by auto
    then show ?thesis
    proof cases
      case 1
      then have "matchesAt p (c # cs)" using pl by (rule regex_test_Cons_replace[rotated 2])
      then show ?thesis by simp
    next
      case 2
      with "2.IH"(3) False "2.prems" show ?thesis by simp
    qed
  qed
qed

lemma regex_test_replace_self_gen:
  assumes "kw \<in> set BANNED_KEYWORDS" and "repl = (lit ''[REDACTED]'')"
  shows "\<not> regex_test kw (replace_regex kw repl s)"
  using assms
proof (induction kw repl s rule: replace_regex.induct)
  case (1 keyword replacement)
  from banned_nonempty[OF "1.prems"(1)] show ?case by (cases keyword) simp_all
next
  case (2 keyword replacement c cs)
  note pl = banned_lowerLetter[OF "2.prems"(1)] banned_nonempty[OF "2.prems"(1)]
  show ?case
  proof (cases "matchesAt keyword (c # cs)")
    case True
    with pl "2.IH"(2) "2.prems" have "\<not> regex_test keyword (replace_regex keyword replacement (drop (length keyword - 1) cs))"
      by simp
    then have "\<not> regex_test keyword ((lit ''[REDACTED]'') @ replace_regex keyword replacement (drop (length keyword - 1) cs))"
      unfolding regex_test_marker[OF "2.prems"(1)] .
    with True pl "2.prems" show ?thesis by simp
  next
    case False
    have "\<not> matchesAt keyword (c # replace_regex keyword (lit ''[REDACTED]'') cs)"
      using False regex_test_Cons_replace[OF pl] by blast
    moreover from "2.IH"(3) False "2.prems" have "\<not> regex_test keyword (replace_regex keyword replacement cs)" by simp
    ultimately show ?thesis using False "2.prems" by simp
  qed
qed

section \<open>Replacement only redacts\<close>

lemma redaction_trans: "redaction t u \<Longrightarrow> redaction s t \<Longrightarrow> redaction s u"
proof (induction rule: redaction.induct)
  case (unchanged t)
  then show ?case .
next
  case (replaced t ps v ss keyword)
  from replaced.IH[OF replaced.prems] have "redaction s (ps @ v @ ss)" .
  from redaction.replaced[OF this replaced.hyps(2,3)] show ?case .
qed

lemma redaction_Cons: "redaction s t \<Longrightarrow> redaction (c # s) (c # t)"
proof (induction rule: redaction.induct)
  case (unchanged s)
  show ?case by (rule redaction.unchanged)
next
  case (replaced s ps v ss keyword)
  from replaced.IH have "redaction (c # s) ((c # ps) @ v @ ss)" by simp
  from redaction.replaced[OF this replaced.hyps(2,3)] show ?case by simp
qed

lemma redaction_append: "redaction s t \<Longrightarrow> redaction (p @ s) (p @ t)"
  by (induction p) (simp_all add: redaction_Cons)

lemma matchesAt_split:
  assumes "list_all lowerLetter kw" and "matchesAt kw s"
  shows "map ascii_fold (take (length kw) s) = kw"
proof -
  from assms have "prefix kw (map ascii_fold s)" by (simp add: matchesAt_fold)
  then obtain zs where "map ascii_fold s = kw @ zs" by (auto simp: prefix_def)
  then have "take (length kw) (map ascii_fold s) = kw" by simp
  then show ?thesis by (simp add: take_map)
qed

lemma redaction_replace_gen:
  assumes "kw \<in> set BANNED_KEYWORDS" and "repl = (lit ''[REDACTED]'')"
  shows "redaction s (replace_regex kw repl s)"
  using assms
proof (induction kw repl s rule: replace_regex.induct)
  case (1 keyword replacement)
  from banned_nonempty[OF "1.prems"(1)] show ?case by (simp add: redaction.unchanged)
next
  case (2 keyword replacement c cs)
  note pl = banned_lowerLetter[OF "2.prems"(1)] banned_nonempty[OF "2.prems"(1)]
  show ?case
  proof (cases "matchesAt keyword (c # cs)")
    case True
    let ?v = "take (length keyword) (c # cs)"
    let ?rest = "drop (length keyword - 1) cs"
    from pl(2) have dr: "drop (length keyword) (c # cs) = ?rest" by (cases keyword) simp_all
    have "c # cs = [] @ ?v @ ?rest" using dr append_take_drop_id[of "length keyword" "c # cs"] by simp
    then have "redaction (c # cs) ([] @ ?v @ ?rest)" by (simp add: redaction.unchanged)
    from redaction.replaced[OF this "2.prems"(1) matchesAt_split[OF pl(1) True]]
    have a: "redaction (c # cs) ((lit ''[REDACTED]'') @ ?rest)" by simp
    from "2.IH"(2) True pl "2.prems" have "redaction ?rest (replace_regex keyword replacement ?rest)"
      by simp
    then have "redaction ((lit ''[REDACTED]'') @ ?rest) ((lit ''[REDACTED]'') @ replace_regex keyword replacement ?rest)"
      by (rule redaction_append)
    from redaction_trans[OF this a] True pl "2.prems" show ?thesis by simp
  next
    case False
    with "2.IH"(3) "2.prems" have "redaction cs (replace_regex keyword replacement cs)" by simp
    then have "redaction (c # cs) (c # replace_regex keyword replacement cs)" by (rule redaction_Cons)
    with False show ?thesis by simp
  qed
qed

subsection \<open>The loop over the denylist\<close>

lemma fold_found: "snd (foldl moderateStep (t, True) ks) = True"
proof (induction ks arbitrary: t)
  case Nil
  show ?case by simp
next
  case (Cons k ks)
  have "\<exists>t'. moderateStep (t, True) k = (t', True)" by (simp add: moderateStep_def)
  then obtain t' where "moderateStep (t, True) k = (t', True)" ..
  then show ?case using Cons.IH[of t'] by simp
qed

lemma fold_no_match:
  "\<forall>k \<in> set ks. \<not> regex_test k t \<Longrightarrow> foldl moderateStep (t, f) ks = (t, f)"
  by (induction ks) (simp_all add: moderateStep_def)

lemma fold_not_found:
  "snd (foldl moderateStep (t, f) ks) = False \<Longrightarrow> \<forall>k \<in> set ks. \<not> regex_test k t"
proof (induction ks arbitrary: t f)
  case Nil
  show ?case by simp
next
  case (Cons k ks)
  show ?case
  proof (cases "regex_test k t")
    case True
    then have "foldl moderateStep (t, f) (k # ks) = foldl moderateStep (replace_regex k (lit ''[REDACTED]'') t, True) ks"
      by (simp add: moderateStep_def)
    with Cons.prems fold_found show ?thesis by simp
  next
    case False
    then have "foldl moderateStep (t, f) (k # ks) = foldl moderateStep (t, f) ks"
      by (simp add: moderateStep_def)
    with Cons.prems Cons.IH[of t f] False show ?thesis by simp
  qed
qed

lemma fold_redaction:
  "set ks \<subseteq> set BANNED_KEYWORDS \<Longrightarrow> redaction s t \<Longrightarrow>
   redaction s (fst (foldl moderateStep (t, f) ks))"
proof (induction ks arbitrary: t f)
  case Nil
  then show ?case by simp
next
  case (Cons k ks)
  from Cons.prems have k: "k \<in> set BANNED_KEYWORDS" and ks: "set ks \<subseteq> set BANNED_KEYWORDS" by simp_all
  show ?case
  proof (cases "regex_test k t")
    case True
    from redaction_trans[OF redaction_replace_gen[OF k refl] Cons.prems(2)]
    have "redaction s (replace_regex k (lit ''[REDACTED]'') t)" .
    from Cons.IH[OF ks this] True show ?thesis by (simp add: moderateStep_def)
  next
    case False
    with Cons.IH[OF ks Cons.prems(2)] show ?thesis by (simp add: moderateStep_def)
  qed
qed

lemma fold_clean:
  "set ks \<subseteq> set BANNED_KEYWORDS \<Longrightarrow> D \<subseteq> set BANNED_KEYWORDS \<Longrightarrow>
   \<forall>d \<in> D. \<not> regex_test d t \<Longrightarrow>
   \<forall>d \<in> D \<union> set ks. \<not> regex_test d (fst (foldl moderateStep (t, f) ks))"
proof (induction ks arbitrary: t f D)
  case Nil
  then show ?case by simp
next
  case (Cons k ks)
  from Cons.prems have k: "k \<in> set BANNED_KEYWORDS" and ks: "set ks \<subseteq> set BANNED_KEYWORDS" by simp_all
  from k Cons.prems(2) have D': "insert k D \<subseteq> set BANNED_KEYWORDS" by simp
  obtain t' f' where st: "moderateStep (t, f) k = (t', f')" by (cases "moderateStep (t, f) k")
  have "\<forall>d \<in> insert k D. \<not> regex_test d t'"
  proof (cases "regex_test k t")
    case True
    with st have t': "t' = replace_regex k (lit ''[REDACTED]'') t" by (simp add: moderateStep_def)
    show ?thesis
    proof
      fix d assume d: "d \<in> insert k D"
      show "\<not> regex_test d t'"
      proof (cases "d = k")
        case True
        with t' regex_test_replace_self_gen[OF k refl] show ?thesis by simp
      next
        case False
        with d have dD: "d \<in> D" by simp
        with Cons.prems(2) have db: "d \<in> set BANNED_KEYWORDS" by auto
        from regex_test_replace_gen[OF db banned_nonempty[OF k] refl, of t] Cons.prems(3) dD t'
        show ?thesis by auto
      qed
    qed
  next
    case False
    with st have "t' = t" by (simp add: moderateStep_def)
    with False Cons.prems(3) show ?thesis by simp
  qed
  from Cons.IH[OF ks D' this, of f'] st show ?case by simp
qed

lemma moderateOutput_text: "text' (moderateOutput t) = fst (foldl moderateStep (t, False) BANNED_KEYWORDS)"
  by (simp add: moderateOutput_def split: prod.splits)

lemma moderateOutput_isSafe: "isSafe (moderateOutput t) = (\<not> snd (foldl moderateStep (t, False) BANNED_KEYWORDS))"
  by (simp add: moderateOutput_def split: prod.splits)

lemma moderateOutput_clean:
  "k \<in> set BANNED_KEYWORDS \<Longrightarrow> \<not> regex_test k (text' (moderateOutput t))"
  using fold_clean[of BANNED_KEYWORDS "{}" t False] by (simp add: moderateOutput_text)

lemma containsBannedContent_lower:
  "containsBannedContent t = (\<exists>k \<in> set BANNED_KEYWORDS. sublist k (toLowerCase t))"
  by (simp add: containsBannedContent_def list_ex_iff includes_sublist)

lemma occurs_containsBannedContent:
  "k \<in> set BANNED_KEYWORDS \<Longrightarrow> occurs_ignoring_case k t \<Longrightarrow> containsBannedContent t"
  using occurs_includes[OF banned_lowerLetter, of k t]
  by (auto simp: containsBannedContent_lower includes_sublist)

lemma moderateOutput_safe:
  "\<forall>k \<in> set BANNED_KEYWORDS. \<not> regex_test k t \<Longrightarrow> moderateOutput t = \<lparr>isSafe = True, text' = t\<rparr>"
  by (simp add: moderateOutput_def fold_no_match)

lemma moderateOutput_unsafe:
  "k \<in> set BANNED_KEYWORDS \<Longrightarrow> regex_test k t \<Longrightarrow> \<not> isSafe (moderateOutput t)"
  using fold_not_found[of t False BANNED_KEYWORDS] by (auto simp: moderateOutput_isSafe)

section \<open>Evaluations used below\<close>

lemma moderate_violence:
  "moderateOutput (lit ''Violence is never the answer'') =
     \<lparr>isSafe = False, text' = (lit ''[REDACTED] is never the answer'')\<rparr>"
  by (simp add: moderateOutput_def BANNED_KEYWORDS_def moderateStep_def canonicalize_def canonicalizeLatin1_def)

lemma moderate_overlap:
  "text' (moderateOutput (lit ''hacKill the BOMBomb'')) = (lit ''hac[REDACTED] the [REDACTED]omb'')"
  by (simp add: moderateOutput_def BANNED_KEYWORDS_def moderateStep_def canonicalize_def canonicalizeLatin1_def)


lemma sublist_skip_Cons: "sublist xs ys \<Longrightarrow> sublist xs (y # ys)"
  by (simp add: sublist_Cons_right)

lemma sublist_skip_append: "sublist xs ys \<Longrightarrow> sublist xs (zs @ ys)"
  by (induction zs) (simp_all add: sublist_skip_Cons)

lemma main_after_checks:
  "trim userPrompt \<noteq> [] \<Longrightarrow> \<not> containsBannedContent userPrompt \<Longrightarrow>
   f userPrompt = Inr aiResponse \<Longrightarrow>
   main (Some f) userPrompt =
     [ConsoleLog [0x2554 # replicate 40 0x2550 @ [0x2557]],
      ConsoleLog [0x2551 # units ''   AI Chat with Moderation System      '' @ [0x2551]],
      ConsoleLog [0x255A # replicate 40 0x2550 @ [0x255D, 10]],
      CreateInterface,
      ConsoleLog [0xD83D # 0xDCAC # units '' Ask me anything (type your question below):'' @ [10]],
      Question (units ''You: ''),
      ConsoleLog [10 # 0xD83D # 0xDD0D # units '' Checking your input for safety...''],
      ConsoleLog [0x2705 # units '' Input is safe!''],
      Call ''callOpenRouter'' userPrompt,
      ConsoleLog [0xD83D # 0xDD0D # units '' Checking AI response for safety...''],
      (if \<not> isSafe (moderateOutput aiResponse)
       then ConsoleLog [0x26A0 # 0xFE0F #
              units ''  Warning: Response contained inappropriate content (redacted below)'' @ [10]]
       else ConsoleLog [0x2705 # units '' Response is safe!'' @ [10]]),
      ConsoleLog [replicate 39 0x2550],
      ConsoleLog [units ''AI Response:''],
      ConsoleLog [replicate 39 0x2550]] @
     [ConsoleLog [numbers (text' (moderateOutput aiResponse))],
      ConsoleLog [replicate 39 0x2550 @ [10]],
      Close]"
  by (simp add: main_def Let_def)

text \<open>
  In the file alone nothing binds \<^verbatim>\<open>callOpenRouter\<close>: an input that passes both checks
  ends in the \<^verbatim>\<open>catch\<close> block, with the message of the \<^verbatim>\<open>ReferenceError\<close>.
\<close>

lemma main_unbound:
  "trim userPrompt \<noteq> [] \<Longrightarrow> \<not> containsBannedContent userPrompt \<Longrightarrow>
   \<exists>before. main None userPrompt =
     before @ [ConsoleError [10 # 0x274C # units '' An error occurred:'',
                             units ''callOpenRouter is not defined''],
               Close]"
  by (simp add: main_def)

lemma main_empty_input:
  "trim userPrompt = [] \<Longrightarrow> \<forall>name arg. Call name arg \<notin> set (main callOpenRouter userPrompt)"
  by (simp add: main_def)

lemma main_banned_input:
  "containsBannedContent userPrompt \<Longrightarrow>
   \<forall>name arg. Call name arg \<notin> set (main callOpenRouter userPrompt)"
  by (simp add: main_def)

section \<open>The claims\<close>

text \<open>
  C1. The claim: with the credential configured, \<^verbatim>\<open>callDeepseekAPI\<close> builds the request body,
  sends one POST and returns the trimmed content of the first choice. The function of the
  file ends at line 75: with a credential and the message of the specification's scenario it
  has no effect at all, makes no request, and settles to \<^verbatim>\<open>undefined\<close>, never to a string.
\<close>

theorem callDeepseekAPI_sends_no_request:
  "callDeepseekAPI (Some ''sk-or-v1-0123'') (lit ''What is the capital of France?'')
     = ([], Inr JSUndefined) \<and>
   (\<forall>t. snd (callDeepseekAPI (Some ''sk-or-v1-0123'') (lit ''What is the capital of France?''))
          \<noteq> Inr (JSString t)) \<and>
   (\<forall>url. Fetch url
      \<notin> set (fst (callDeepseekAPI (Some ''sk-or-v1-0123'') (lit ''What is the capital of France?''))))"
  by (simp add: callDeepseekAPI_def)

text \<open>
  C2. In every run of \<^verbatim>\<open>main\<close> whose input passes the emptiness check and the input
  moderation and in which the called client settles to a text, the run ends by printing the
  text of \<^verbatim>\<open>moderateOutput\<close> of that text, then the closing rule, then closes the
  interface; the printed line does not depend on the verdict being safe. The client is the
  binding of \<^verbatim>\<open>callOpenRouter\<close>, the identifier that \<^verbatim>\<open>main\<close> calls.
\<close>

theorem returned_text_is_moderated_and_displayed:
  "callOpenRouter = Some f \<Longrightarrow> trim userPrompt \<noteq> [] \<Longrightarrow>
   \<not> containsBannedContent userPrompt \<Longrightarrow> f userPrompt = Inr aiResponse \<Longrightarrow>
   \<exists>before. main callOpenRouter userPrompt =
     before @ [ConsoleLog [numbers (text' (moderateOutput aiResponse))],
               ConsoleLog [replicate 39 0x2550 @ [10]],
               Close]"
  using main_after_checks[of userPrompt f aiResponse] by blast

theorem returned_text_is_moderated_and_displayed_witness:
  "trim (lit ''Is war ever right?'') \<noteq> [] \<and> \<not> containsBannedContent (lit ''Is war ever right?'') \<and>
   isSafe (moderateOutput (lit ''Violence is never the answer'')) = False \<and>
   (\<exists>before. main (Some (\<lambda>p. Inr (lit ''Violence is never the answer''))) (lit ''Is war ever right?'') =
      before @ [ConsoleLog [units ''[REDACTED] is never the answer''],
                ConsoleLog [replicate 39 0x2550 @ [10]],
                Close])"
proof -
  have a: "trim (lit ''Is war ever right?'') \<noteq> []" by code_simp
  have b: "\<not> containsBannedContent (lit ''Is war ever right?'')" by code_simp
  have c: "(\<lambda>p. Inr (lit ''Violence is never the answer'')) (lit ''Is war ever right?'') =
      (Inr (lit ''Violence is never the answer'') :: js_error + js_string)" by simp
  from returned_text_is_moderated_and_displayed[OF refl a b c] a b
  show ?thesis by (simp add: moderate_violence[simplified] numbers_def number_def units_def)
qed

text \<open>
  C3. For every text in which a denylist term occurs in some case variant,
  \<^verbatim>\<open>containsBannedContent\<close> is true and \<^verbatim>\<open>moderateOutput\<close> returns \<^verbatim>\<open>isSafe = false\<close> with a
  text that comes from the input by replacing occurrences of case variants of denylist terms
  by \<^verbatim>\<open>[REDACTED]\<close> and in which no denylist term occurs any more, in any case variant.
\<close>

theorem banned_text_is_flagged_and_redacted:
  "(\<exists>keyword \<in> set BANNED_KEYWORDS. occurs_ignoring_case keyword t) \<Longrightarrow>
   containsBannedContent t = True \<and>
   isSafe (moderateOutput t) = False \<and>
   redaction t (text' (moderateOutput t)) \<and>
   (\<forall>keyword \<in> set BANNED_KEYWORDS.
      \<not> occurs_ignoring_case keyword (text' (moderateOutput t)))"
proof -
  assume h: "\<exists>keyword \<in> set BANNED_KEYWORDS. occurs_ignoring_case keyword t"
  then obtain k where k: "k \<in> set BANNED_KEYWORDS" and occ: "occurs_ignoring_case k t" ..
  from occurs_containsBannedContent[OF k occ] have a: "containsBannedContent t = True" by simp
  from k occ have "regex_test k t" by (simp add: regex_test_occurs banned_lowerLetter)
  with k have b: "isSafe (moderateOutput t) = False" by (simp add: moderateOutput_unsafe)
  have c: "redaction t (text' (moderateOutput t))"
    unfolding moderateOutput_text by (rule fold_redaction[OF subset_refl redaction.unchanged])
  have d: "\<forall>keyword \<in> set BANNED_KEYWORDS.
             \<not> occurs_ignoring_case keyword (text' (moderateOutput t))"
  proof
    fix keyword assume kw: "keyword \<in> set BANNED_KEYWORDS"
    from moderateOutput_clean[OF kw, of t] kw
    show "\<not> occurs_ignoring_case keyword (text' (moderateOutput t))"
      by (simp add: regex_test_occurs banned_lowerLetter)
  qed
  from a b c d show ?thesis by blast
qed

theorem banned_text_is_flagged_and_redacted_witness:
  "(\<exists>keyword \<in> set BANNED_KEYWORDS.
      occurs_ignoring_case keyword (lit ''Violence is never the answer'')) \<and>
   containsBannedContent (lit ''Violence is never the answer'') = True \<and>
   moderateOutput (lit ''Violence is never the answer'') =
     \<lparr>isSafe = False, text' = (lit ''[REDACTED] is never the answer'')\<rparr> \<and>
   redaction (lit ''Violence is never the answer'') (lit ''[REDACTED] is never the answer'') \<and>
   list_all (\<lambda>keyword. \<not> occurs_ignoring_case keyword (lit ''[REDACTED] is never the answer''))
     BANNED_KEYWORDS"
proof -
  have "occurs_ignoring_case (lit ''violence'') (lit ''Violence is never the answer'')"
    by code_simp
  then have h: "\<exists>keyword \<in> set BANNED_KEYWORDS.
                  occurs_ignoring_case keyword (lit ''Violence is never the answer'')"
    by (auto simp: BANNED_KEYWORDS_def)
  from banned_text_is_flagged_and_redacted[OF h] h show ?thesis
    by (simp add: moderate_violence[simplified] list_all_iff)
qed




text \<open>
  C5. For every input text, no denylist term occurs, in any case variant, in the text of
  the verdict of \<^verbatim>\<open>moderateOutput\<close>: redaction is total.
\<close>

theorem redaction_is_total:
  "\<forall>keyword \<in> set BANNED_KEYWORDS. \<not> occurs_ignoring_case keyword (text' (moderateOutput t))"
proof
  fix keyword assume kw: "keyword \<in> set BANNED_KEYWORDS"
  from moderateOutput_clean[OF kw, of t] kw
  show "\<not> occurs_ignoring_case keyword (text' (moderateOutput t))"
    by (simp add: regex_test_occurs banned_lowerLetter)
qed

theorem redaction_is_total_witness:
  "(lit ''hack'') \<in> set BANNED_KEYWORDS \<and>
   \<not> occurs_ignoring_case (lit ''hack'') (lit ''hac[REDACTED] the [REDACTED]omb'')"
proof -
  have m: "(lit ''hack'') \<in> set BANNED_KEYWORDS" by (simp add: BANNED_KEYWORDS_def)
  from redaction_is_total[of "lit ''hacKill the BOMBomb''"] m show ?thesis
    by (simp add: moderate_overlap[simplified])
qed

text \<open>
  C6. For every input text, \<^verbatim>\<open>moderateOutput\<close> applied to the text of its own verdict
  returns \<^verbatim>\<open>isSafe = true\<close>; the marker \<^verbatim>\<open>[REDACTED]\<close> holds no term of the denylist.
\<close>

theorem moderate_twice_is_safe:
  "isSafe (moderateOutput (text' (moderateOutput t))) = True \<and>
   containsBannedContent (lit ''[REDACTED]'') = False"
proof -
  have "\<forall>k \<in> set BANNED_KEYWORDS. \<not> regex_test k (text' (moderateOutput t))"
    by (simp add: moderateOutput_clean)
  then have "moderateOutput (text' (moderateOutput t)) =
      \<lparr>isSafe = True, text' = text' (moderateOutput t)\<rparr>"
    by (rule moderateOutput_safe)
  moreover have "containsBannedContent (lit ''[REDACTED]'') = False"
    by code_simp
  ultimately show ?thesis by simp
qed

text \<open>
  C7. In every run of \<^verbatim>\<open>main\<close>, whatever \<^verbatim>\<open>callOpenRouter\<close> is bound to, the client is
  called only if the input is not empty after trimming and \<^verbatim>\<open>containsBannedContent\<close> is
  false on it.
\<close>

theorem client_called_only_after_both_checks:
  "Call name arg \<in> set (main callOpenRouter userPrompt) \<Longrightarrow>
   trim userPrompt \<noteq> [] \<and> \<not> containsBannedContent userPrompt"
  by (auto simp: main_def Let_def split: if_splits option.splits sum.splits)

theorem client_called_only_after_both_checks_witness:
  "Call ''callOpenRouter'' (lit ''What is the capital of France?'')
     \<in> set (main (Some (\<lambda>p. Inr (lit ''Paris is the capital of France.'')))
              (lit ''What is the capital of France?'')) \<and>
   trim (lit ''What is the capital of France?'') \<noteq> [] \<and>
   \<not> containsBannedContent (lit ''What is the capital of France?'')"
proof -
  have a: "trim (lit ''What is the capital of France?'') \<noteq> []" by code_simp
  have b: "\<not> containsBannedContent (lit ''What is the capital of France?'')" by code_simp
  have c: "Call ''callOpenRouter'' (lit ''What is the capital of France?'')
     \<in> set (main (Some (\<lambda>p. Inr (lit ''Paris is the capital of France.'')))
              (lit ''What is the capital of France?''))"
    using a b by (simp add: main_def Let_def)
  from client_called_only_after_both_checks[OF c] c show ?thesis by simp
qed

text \<open>
  C8. Without the credential in the environment, \<^verbatim>\<open>callDeepseekAPI\<close> throws at once, with
  no effect before it (no request), an error whose message tells how to set the variable in
  the Windows command prompt and in PowerShell.
\<close>

theorem missing_key_fails_before_any_request:
  "callDeepseekAPI None userInput = ([], Inl (Error KEY_NOT_FOUND)) \<and>
   sublist (units ''Windows CMD: set OPENROUTER_API_KEY=your-key-here'') KEY_NOT_FOUND \<and>
   sublist (units ''Windows PowerShell: $env:OPENROUTER_API_KEY='') KEY_NOT_FOUND"
proof -
  have a: "callDeepseekAPI None userInput = ([], Inl (Error KEY_NOT_FOUND))"
    by (simp add: callDeepseekAPI_def)
  have b: "sublist (units ''Windows CMD: set OPENROUTER_API_KEY=your-key-here'') KEY_NOT_FOUND"
    unfolding KEY_NOT_FOUND_def
    by (rule sublist_skip_Cons, rule sublist_skip_append, rule sublist_skip_append,
        rule sublist_skip_append, rule sublist_skip_append, rule sublist_append_rightI)
  have c: "sublist (units ''Windows PowerShell: $env:OPENROUTER_API_KEY='') KEY_NOT_FOUND"
    unfolding KEY_NOT_FOUND_def
    by (rule sublist_skip_Cons, rule sublist_skip_append, rule sublist_skip_append,
        rule sublist_skip_append, rule sublist_skip_append, rule sublist_skip_append,
        rule sublist_skip_append, rule sublist_append_rightI)
  from a b c show ?thesis by blast
qed

text \<open>
  C9. The claim: a response with a non-success status makes \<^verbatim>\<open>callDeepseekAPI\<close> fail with
  the status and the body, and a successful response without content makes it fail with an
  empty-response error. The function of the file never reads a response: called with a
  credential it throws nothing, whatever the endpoint would answer.
\<close>

theorem callDeepseekAPI_reports_no_response_error:
  "\<forall>e. snd (callDeepseekAPI (Some ''sk-or-v1-0123'') (lit ''hello'')) \<noteq> Inl e"
  by (simp add: callDeepseekAPI_def)

text \<open>
  C10. With the credential configured (a non-empty string), \<^verbatim>\<open>callDeepseekAPI\<close> returns at
  once with no value (\<^verbatim>\<open>undefined\<close>) and has no effect: no request and no output.
\<close>

theorem configured_key_returns_undefined_without_request:
  "OPENROUTER_API_KEY = Some key \<Longrightarrow> key \<noteq> [] \<Longrightarrow>
   callDeepseekAPI OPENROUTER_API_KEY userInput = ([], Inr JSUndefined)"
  by (simp add: callDeepseekAPI_def)

theorem configured_key_returns_undefined_without_request_witness:
  "''sk-or-v1-0123'' \<noteq> [] \<and>
   callDeepseekAPI (Some ''sk-or-v1-0123'') (lit ''Tell me a joke'') = ([], Inr JSUndefined)"
  using configured_key_returns_undefined_without_request
    [of "Some ''sk-or-v1-0123''" "''sk-or-v1-0123''" "(lit ''Tell me a joke'')"]
  by simp

end
